theory Spec2Isabelle
  imports Main "HOL-Library.Word"
begin

unbundle bit_operations_syntax

section \<open>Data model\<close>

text \<open>
  The codec of \<^verbatim>\<open>src/main.cpp\<close> (namespace \<^verbatim>\<open>Steganography\<close>) works on an
  \<^verbatim>\<open>sf::Image\<close> and a \<^verbatim>\<open>std::vector<char>\<close>. Machine integers keep their widths:
  \<^verbatim>\<open>sf::Uint8\<close> and \<^verbatim>\<open>char\<close> are 8-bit words, \<^verbatim>\<open>unsigned int\<close> and \<^verbatim>\<open>uint32_t\<close> are
  32-bit words (the width of \<^verbatim>\<open>unsigned int\<close> on the platforms the library supports),
  \<^verbatim>\<open>uint64_t\<close> is a 64-bit word.
\<close>

type_synonym Uint8 = "8 word"
type_synonym uint32 = "32 word"
type_synonym uint64 = "64 word"

text \<open>
  \<^verbatim>\<open>sf::Color\<close> has the four fields \<^verbatim>\<open>r, g, b, a\<close>; the selectors carry a prefix so that
  the one-letter names stay free for variables.
\<close>

record Color =
  col_r :: Uint8
  col_g :: Uint8
  col_b :: Uint8
  col_a :: Uint8

text \<open>
  \<^verbatim>\<open>sf::Image\<close>: its size (\<^verbatim>\<open>sf::Vector2u\<close>, two \<^verbatim>\<open>unsigned int\<close>) and its pixels, stored
  row by row: the pixel at \<open>(x, y)\<close> is element \<open>x + y * size_x\<close>.
\<close>

record Image =
  size_x :: uint32
  size_y :: uint32
  pixels :: "Color list"

text \<open>
  A pixel buffer as the image collaborator hands it over: positive width and height, one
  pixel per coordinate, and a pixel array (four bytes per pixel) that fits a 64-bit
  address space. This is wider than what the library can hold (an \<^verbatim>\<open>sf::Image\<close> has fewer
  than \<open>2^30\<close> pixels); the theorems that need every slot index to fit the 32-bit cursor
  say so with \<open>W * H * 3 \<le> 2^32\<close>.
\<close>

definition wf_image :: "Image \<Rightarrow> bool" where
  "wf_image img \<longleftrightarrow>
     0 < size_x img \<and> 0 < size_y img \<and>
     length (pixels img) = unat (size_x img) * unat (size_y img) \<and>
     4 * length (pixels img) < 2 ^ 64"

text \<open>
  \<^verbatim>\<open>sf::Image::getPixel\<close> and \<^verbatim>\<open>sf::Image::setPixel\<close> belong to the SFML library. They do
  no bounds check: coordinates outside the image are undefined behaviour. The model makes
  such an access visible as \<open>None\<close>.
\<close>

definition getPixel :: "Image \<Rightarrow> uint32 \<Rightarrow> uint32 \<Rightarrow> Color option" where
  "getPixel img x y =
     (if x < size_x img \<and> y < size_y img
      then Some (pixels img ! (unat x + unat y * unat (size_x img)))
      else None)"

definition setPixel :: "Image \<Rightarrow> uint32 \<Rightarrow> uint32 \<Rightarrow> Color \<Rightarrow> Image option" where
  "setPixel img x y color =
     (if x < size_x img \<and> y < size_y img
      then Some (img\<lparr>pixels := (pixels img)[unat x + unat y * unat (size_x img) := color]\<rparr>)
      else None)"

section \<open>Bit packing\<close>

text \<open>
  \<^verbatim>\<open>embedBit\<close> (lines 17-23) updates the channel through a reference; the model returns
  the new channel byte. \<^verbatim>\<open>extractBit\<close> (lines 26-28) converts \<^verbatim>\<open>colorChannel & 1\<close> to
  \<^verbatim>\<open>bool\<close>.
\<close>

definition embedBit :: "Uint8 \<Rightarrow> bool \<Rightarrow> Uint8" where
  "embedBit colorChannel bitv =
     (if bitv then colorChannel OR 1 else colorChannel AND NOT 1)"

definition extractBit :: "Uint8 \<Rightarrow> bool" where
  "extractBit colorChannel \<longleftrightarrow> colorChannel AND 1 \<noteq> 0"

section \<open>Traversal\<close>

text \<open>
  The position computed from the cursor, written four times in the source (lines 61-62,
  81-82, 119-120, 152-153), all in \<^verbatim>\<open>unsigned int\<close> arithmetic.
\<close>

definition slotPos :: "uint32 \<Rightarrow> uint32 \<Rightarrow> uint32 \<times> uint32" where
  "slotPos imageSize_x bitIndex =
     ((bitIndex div 3) mod imageSize_x, (bitIndex div 3) div imageSize_x)"

text \<open>The \<^verbatim>\<open>switch (bitIndex % 3)\<close> of the encoder (lines 67-71 and 87-91).\<close>

definition embedChannel :: "uint32 \<Rightarrow> Color \<Rightarrow> bool \<Rightarrow> Color" where
  "embedChannel bitIndex color bitv =
     (if bitIndex mod 3 = 0 then color\<lparr>col_r := embedBit (col_r color) bitv\<rparr>
      else if bitIndex mod 3 = 1 then color\<lparr>col_g := embedBit (col_g color) bitv\<rparr>
      else if bitIndex mod 3 = 2 then color\<lparr>col_b := embedBit (col_b color) bitv\<rparr>
      else color)"

text \<open>The \<^verbatim>\<open>switch (bitIndex % 3)\<close> of the decoder (lines 124-128 and 158-162).\<close>

definition extractChannel :: "uint32 \<Rightarrow> Color \<Rightarrow> bool" where
  "extractChannel bitIndex color =
     (if bitIndex mod 3 = 0 then extractBit (col_r color)
      else if bitIndex mod 3 = 1 then extractBit (col_g color)
      else if bitIndex mod 3 = 2 then extractBit (col_b color)
      else False)"

text \<open>The cursor after \<open>k\<close> executions of \<^verbatim>\<open>bitIndex++\<close>, starting from 0.\<close>

definition cursorAfter :: "nat \<Rightarrow> uint32" where
  "cursorAfter k = ((\<lambda>bitIndex. bitIndex + 1) ^^ k) 0"

section \<open>Encoder\<close>

text \<open>
  One pass through the body of an embedding loop (lines 60-74 and 80-94): locate the
  pixel, read it, set the low bit of the selected channel, write the pixel back, advance
  the cursor. The state is the image and the cursor.
\<close>

definition embedStep :: "Image \<times> uint32 \<Rightarrow> bool \<Rightarrow> (Image \<times> uint32) option" where
  "embedStep st bitv =
     (case st of (carrierImage, bitIndex) \<Rightarrow>
        (case slotPos (size_x carrierImage) bitIndex of (pos_x, pos_y) \<Rightarrow>
           (case getPixel carrierImage pos_x pos_y of
              None \<Rightarrow> None
            | Some color \<Rightarrow>
                (case setPixel carrierImage pos_x pos_y (embedChannel bitIndex color bitv) of
                   None \<Rightarrow> None
                 | Some img' \<Rightarrow> Some (img', bitIndex + 1)))))"

text \<open>
  \<^verbatim>\<open>for (int i = 0; i < N; ++i)\<close> with the bit to embed given by \<open>bitAt i\<close>; the loop
  counter runs through the list \<open>[0..<N]\<close>.
\<close>

primrec embedLoop :: "(nat \<Rightarrow> bool) \<Rightarrow> nat list \<Rightarrow> Image \<times> uint32 \<Rightarrow> (Image \<times> uint32) option" where
  "embedLoop bitAt [] st = Some st"
| "embedLoop bitAt (i # rest) st =
     (case embedStep st (bitAt i) of
        None \<Rightarrow> None
      | Some st' \<Rightarrow> embedLoop bitAt rest st')"

text \<open>
  \<^verbatim>\<open>for (char byte : secretData)\<close> (lines 78-96). The bit is \<^verbatim>\<open>(byte >> i) & 1\<close>; for
  \<open>i < 8\<close> the promotion of \<^verbatim>\<open>char\<close> to \<^verbatim>\<open>int\<close> does not change it.
\<close>

primrec embedData :: "Uint8 list \<Rightarrow> Image \<times> uint32 \<Rightarrow> (Image \<times> uint32) option" where
  "embedData [] st = Some st"
| "embedData (byte # rest) st =
     (case embedLoop (\<lambda>i. drop_bit i byte AND 1 \<noteq> 0) [0..<8] st of
        None \<Rightarrow> None
      | Some st' \<Rightarrow> embedData rest st')"

datatype encode_status = InsufficientCapacity | EncodeSuccess

text \<open>\<^verbatim>\<open>(uint64_t)imageSize.x * imageSize.y * 3\<close> (lines 48 and 137).\<close>

definition capacityBits :: "Image \<Rightarrow> uint64" where
  "capacityBits img = ucast (size_x img) * ucast (size_y img) * 3"

text \<open>
  \<^verbatim>\<open>Steganography::encode\<close>, lines 43-96, from the payload bytes in memory to the mutated
  image (loading and saving files is left to the collaborators). The result carries the
  image as the call leaves it, so that an early return shows the buffer it returns with.
\<close>

definition encode :: "Image \<Rightarrow> Uint8 list \<Rightarrow> (encode_status \<times> Image) option" where
  "encode carrierImage secretData =
     (let secretSize = (of_nat (length secretData) :: uint32);
          capacity = capacityBits carrierImage;
          requiredBits = (32 :: uint64) + ucast secretSize * 8
      in if capacity < requiredBits then Some (InsufficientCapacity, carrierImage)
         else (case embedLoop (\<lambda>i. drop_bit i secretSize AND 1 \<noteq> 0) [0..<32] (carrierImage, 0) of
                 None \<Rightarrow> None
               | Some st \<Rightarrow>
                   (case embedData secretData st of
                      None \<Rightarrow> None
                    | Some st' \<Rightarrow> Some (EncodeSuccess, fst st'))))"

text \<open>The status strings \<^verbatim>\<open>encode\<close> returns (lines 52 and 102).\<close>

definition encode_message :: "string \<Rightarrow> encode_status \<Rightarrow> string" where
  "encode_message outputPath s =
     (case s of
        InsufficientCapacity \<Rightarrow> ''Error: Carrier image is too small to hold the secret data.''
      | EncodeSuccess \<Rightarrow> ''Success! Data encoded and saved to '' @ outputPath)"

section \<open>Decoder\<close>

text \<open>Reading one slot (lines 118-128 and 151-162) and advancing the cursor.\<close>

definition extractStep :: "Image \<Rightarrow> uint32 \<Rightarrow> (bool \<times> uint32) option" where
  "extractStep stegoImage bitIndex =
     (case slotPos (size_x stegoImage) bitIndex of (pos_x, pos_y) \<Rightarrow>
        (case getPixel stegoImage pos_x pos_y of
           None \<Rightarrow> None
         | Some color \<Rightarrow> Some (extractChannel bitIndex color, bitIndex + 1)))"

text \<open>
  \<^verbatim>\<open>for (int i = 0; i < N; ++i)\<close> of the decoder: the accumulator gets
  \<^verbatim>\<open>acc |= (1 << i)\<close> when the slot's bit is set. It serves the 32-bit size
  (lines 117-134) and the 8-bit \<^verbatim>\<open>currentByte\<close> (lines 150-168).
\<close>

primrec extractLoop :: "Image \<Rightarrow> nat list \<Rightarrow> 'a::len word \<times> uint32 \<Rightarrow> ('a word \<times> uint32) option" where
  "extractLoop stegoImage [] st = Some st"
| "extractLoop stegoImage (i # rest) st =
     (case extractStep stegoImage (snd st) of
        None \<Rightarrow> None
      | Some (bitv, bitIndex') \<Rightarrow>
          extractLoop stegoImage rest
            (if bitv then fst st OR push_bit i 1 else fst st, bitIndex'))"

text \<open>
  \<^verbatim>\<open>for (uint32_t byte_i = 0; byte_i < secretSize; ++byte_i)\<close> (lines 148-170); the
  first argument is the number of iterations left, the state is \<^verbatim>\<open>secretData\<close> and the
  cursor.
\<close>

primrec extractData :: "Image \<Rightarrow> nat \<Rightarrow> Uint8 list \<times> uint32 \<Rightarrow> (Uint8 list \<times> uint32) option" where
  "extractData stegoImage 0 st = Some st"
| "extractData stegoImage (Suc k) st =
     (case extractLoop stegoImage [0..<8] (0 :: Uint8, snd st) of
        None \<Rightarrow> None
      | Some (currentByte, bitIndex') \<Rightarrow>
          extractData stegoImage k (fst st @ [currentByte], bitIndex'))"

datatype decode_status = InvalidLength | EmptyPayload | Decoded "Uint8 list"

text \<open>
  \<^verbatim>\<open>Steganography::decode\<close>, lines 112-170, from the image in memory to the recovered
  bytes.
\<close>

definition decode :: "Image \<Rightarrow> decode_status option" where
  "decode stegoImage =
     (case extractLoop stegoImage [0..<32] (0 :: uint32, 0) of
        None \<Rightarrow> None
      | Some (secretSize, bitIndex) \<Rightarrow>
          if (ucast secretSize :: uint64) * 8 + 32 > capacityBits stegoImage then Some InvalidLength
          else if secretSize = 0 then Some EmptyPayload
          else (case extractData stegoImage (unat secretSize) ([], bitIndex) of
                  None \<Rightarrow> None
                | Some st \<Rightarrow> Some (Decoded (fst st))))"

text \<open>The status strings \<^verbatim>\<open>decode\<close> returns (lines 139, 142 and 179).\<close>

definition decode_message :: "string \<Rightarrow> decode_status \<Rightarrow> string" where
  "decode_message outputPath s =
     (case s of
        InvalidLength \<Rightarrow> ''Error: Decoded size is invalid or larger than image capacity.''
      | EmptyPayload \<Rightarrow> ''Warning: Decoded size is 0. Nothing to extract.''
      | Decoded secretData \<Rightarrow> ''Success! Decoded data saved to '' @ outputPath)"

text \<open>The bytes a decode call hands to the output file: none on the early returns.\<close>

definition decoded_bytes :: "decode_status \<Rightarrow> Uint8 list" where
  "decoded_bytes s = (case s of Decoded secretData \<Rightarrow> secretData | _ \<Rightarrow> [])"

text \<open>A status string reports an error when it starts with \<^verbatim>\<open>Error:\<close>.\<close>

definition is_error_message :: "string \<Rightarrow> bool" where
  "is_error_message msg \<longleftrightarrow> take 6 msg = ''Error:''"

section \<open>The decoder with unchecked reads\<close>

text \<open>
  The decoder with the pixel read as the library performs it: \<^verbatim>\<open>getPixel\<close> checks nothing,
  and for coordinates outside the image it returns whatever the memory behind the pixel
  array holds. \<open>stray x y\<close> stands for that colour; everything else is \<open>decode\<close> again.
  \<open>decodedSize\<close> is the value of \<^verbatim>\<open>secretSize\<close> after the header loop.
\<close>

definition getPixelUnchecked :: "(uint32 \<Rightarrow> uint32 \<Rightarrow> Color) \<Rightarrow> Image \<Rightarrow> uint32 \<Rightarrow> uint32 \<Rightarrow> Color" where
  "getPixelUnchecked stray img x y =
     (case getPixel img x y of Some color \<Rightarrow> color | None \<Rightarrow> stray x y)"

definition extractStepUnchecked :: "(uint32 \<Rightarrow> uint32 \<Rightarrow> Color) \<Rightarrow> Image \<Rightarrow> uint32 \<Rightarrow> bool \<times> uint32" where
  "extractStepUnchecked stray stegoImage bitIndex =
     (case slotPos (size_x stegoImage) bitIndex of (pos_x, pos_y) \<Rightarrow>
        (extractChannel bitIndex (getPixelUnchecked stray stegoImage pos_x pos_y), bitIndex + 1))"

primrec extractLoopUnchecked ::
  "(uint32 \<Rightarrow> uint32 \<Rightarrow> Color) \<Rightarrow> Image \<Rightarrow> nat list \<Rightarrow> 'a::len word \<times> uint32 \<Rightarrow> 'a word \<times> uint32" where
  "extractLoopUnchecked stray stegoImage [] st = st"
| "extractLoopUnchecked stray stegoImage (i # rest) st =
     (case extractStepUnchecked stray stegoImage (snd st) of (bitv, bitIndex') \<Rightarrow>
        extractLoopUnchecked stray stegoImage rest
          (if bitv then fst st OR push_bit i 1 else fst st, bitIndex'))"

primrec extractDataUnchecked ::
  "(uint32 \<Rightarrow> uint32 \<Rightarrow> Color) \<Rightarrow> Image \<Rightarrow> nat \<Rightarrow> Uint8 list \<times> uint32 \<Rightarrow> Uint8 list \<times> uint32" where
  "extractDataUnchecked stray stegoImage 0 st = st"
| "extractDataUnchecked stray stegoImage (Suc k) st =
     (case extractLoopUnchecked stray stegoImage [0..<8] (0 :: Uint8, snd st) of (currentByte, bitIndex') \<Rightarrow>
        extractDataUnchecked stray stegoImage k (fst st @ [currentByte], bitIndex'))"

definition decodedSize :: "(uint32 \<Rightarrow> uint32 \<Rightarrow> Color) \<Rightarrow> Image \<Rightarrow> uint32" where
  "decodedSize stray stegoImage = fst (extractLoopUnchecked stray stegoImage [0..<32] (0 :: uint32, 0))"

definition decodeUnchecked :: "(uint32 \<Rightarrow> uint32 \<Rightarrow> Color) \<Rightarrow> Image \<Rightarrow> decode_status" where
  "decodeUnchecked stray stegoImage =
     (case extractLoopUnchecked stray stegoImage [0..<32] (0 :: uint32, 0) of (secretSize, bitIndex) \<Rightarrow>
        if (ucast secretSize :: uint64) * 8 + 32 > capacityBits stegoImage then InvalidLength
        else if secretSize = 0 then EmptyPayload
        else Decoded (fst (extractDataUnchecked stray stegoImage (unat secretSize) ([], bitIndex))))"

section \<open>The buffer as a sequence of slots\<close>

text \<open>
  The definitions of this section are not part of the source: they name what the claims
  talk about. \<open>capacity_nat\<close> is \<open>W * H * 3\<close> as a natural number. Slot \<open>i\<close> is channel
  \<open>i mod 3\<close> (0 red, 1 green, 2 blue) of pixel \<open>i div 3\<close> of the row-major pixel array;
  \<open>slot_byte\<close> is its channel byte and \<open>slot_lsb\<close> its low bit. \<open>putSlot\<close> sets the low bit
  of one slot and leaves everything else.
\<close>

definition capacity_nat :: "Image \<Rightarrow> nat" where
  "capacity_nat img = unat (size_x img) * unat (size_y img) * 3"

definition channelOf :: "nat \<Rightarrow> Color \<Rightarrow> Uint8" where
  "channelOf k color = (if k = 0 then col_r color else if k = 1 then col_g color else col_b color)"

definition slot_byte :: "Image \<Rightarrow> nat \<Rightarrow> Uint8" where
  "slot_byte img i = channelOf (i mod 3) (pixels img ! (i div 3))"

definition slot_lsb :: "Image \<Rightarrow> nat \<Rightarrow> bool" where
  "slot_lsb img i = extractBit (slot_byte img i)"

definition putChannel :: "nat \<Rightarrow> Color \<Rightarrow> bool \<Rightarrow> Color" where
  "putChannel k color v =
     (if k = 0 then color\<lparr>col_r := embedBit (col_r color) v\<rparr>
      else if k = 1 then color\<lparr>col_g := embedBit (col_g color) v\<rparr>
      else color\<lparr>col_b := embedBit (col_b color) v\<rparr>)"

definition putSlot :: "Image \<Rightarrow> nat \<Rightarrow> bool \<Rightarrow> Image" where
  "putSlot img i v = img\<lparr>pixels := (pixels img)[i div 3 := putChannel (i mod 3) (pixels img ! (i div 3)) v]\<rparr>"

section \<open>The loops as bit streams\<close>

text \<open>
  \<open>embedBits\<close> runs the loop body \<open>embedStep\<close> over a list of bits, one slot per bit;
  \<open>putBits\<close> is what it computes when every slot is inside the buffer. \<open>sizeBits\<close> and
  \<open>byteBits\<close> list the bits of the length header and of a payload byte, least
  significant first, and \<open>streamBits\<close> is the whole stream the encoder embeds.
  \<open>inRange img c n\<close> says that the \<open>n\<close> cursor values from \<open>c\<close> on all denote slots of the
  buffer.
\<close>

primrec embedBits :: "bool list \<Rightarrow> Image \<times> uint32 \<Rightarrow> (Image \<times> uint32) option" where
  "embedBits [] st = Some st"
| "embedBits (v # vs) st =
     (case embedStep st v of
        None \<Rightarrow> None
      | Some st' \<Rightarrow> embedBits vs st')"

primrec putBits :: "bool list \<Rightarrow> Image \<Rightarrow> uint32 \<Rightarrow> Image" where
  "putBits [] img c = img"
| "putBits (v # vs) img c = putBits vs (putSlot img (unat c) v) (c + 1)"

definition sizeBits :: "uint32 \<Rightarrow> bool list" where
  "sizeBits n = map (bit n) [0..<32]"

definition byteBits :: "Uint8 \<Rightarrow> bool list" where
  "byteBits x = map (bit x) [0..<8]"

definition streamBits :: "uint32 \<Rightarrow> Uint8 list \<Rightarrow> bool list" where
  "streamBits n secretData = sizeBits n @ concat (map byteBits secretData)"

definition inRange :: "Image \<Rightarrow> uint32 \<Rightarrow> nat \<Rightarrow> bool" where
  "inRange img c n \<longleftrightarrow> (\<forall>k<n. unat (c + of_nat k) < capacity_nat img)"

text \<open>
  \<open>gatherBits\<close> and \<open>gatherBytes\<close> are what the decoder's loops compute when every slot
  they read is inside the buffer.
\<close>

primrec gatherBits :: "Image \<Rightarrow> nat list \<Rightarrow> 'a::len word \<Rightarrow> uint32 \<Rightarrow> 'a word" where
  "gatherBits img [] acc c = acc"
| "gatherBits img (i # ks) acc c =
     gatherBits img ks (if slot_lsb img (unat c) then acc OR push_bit i 1 else acc) (c + 1)"

primrec gatherBytes :: "Image \<Rightarrow> nat \<Rightarrow> Uint8 list \<Rightarrow> uint32 \<Rightarrow> Uint8 list" where
  "gatherBytes img 0 secretData c = secretData"
| "gatherBytes img (Suc k) secretData c =
     gatherBytes img k (secretData @ [gatherBits img [0..<8] 0 c]) (c + 8)"

text \<open>Encoding a payload and decoding the image the encoder leaves.\<close>

definition roundTrip :: "Image \<Rightarrow> Uint8 list \<Rightarrow> decode_status option" where
  "roundTrip img secretData =
     (case encode img secretData of
        Some (EncodeSuccess, img') \<Rightarrow> decode img'
      | _ \<Rightarrow> None)"

section \<open>Concrete inputs\<close>

text \<open>
  \<open>plainImage w h\<close> is a \<open>w\<close> by \<open>h\<close> image of one colour. \<open>hugeSecret\<close> has \<open>2^32\<close> bytes, a
  length that does not fit \<^verbatim>\<open>uint32_t\<close>.
\<close>

definition plainColor :: Color where
  "plainColor = \<lparr>col_r = 0x80, col_g = 0x81, col_b = 0x7F, col_a = 0xFF\<rparr>"

definition plainImage :: "uint32 \<Rightarrow> uint32 \<Rightarrow> Image" where
  "plainImage w h = \<lparr>size_x = w, size_y = h, pixels = replicate (unat w * unat h) plainColor\<rparr>"

definition hugeSecret :: "Uint8 list" where
  "hugeSecret = replicate 4294967296 0"

section \<open>Bit packing: auxiliary facts\<close>

lemma extractBit_bit0: "extractBit c = bit c 0"
  unfolding extractBit_def by (simp add: and_one_eq bit_0 mod_2_eq_odd)

lemma bit_embedBit: "bit (embedBit c v) n = (if n = 0 then v else bit c n)"
  unfolding embedBit_def
  by (auto simp: bit_simps bit_0 even_or_iff even_and_iff dest: bit_imp_possible_bit)

section \<open>One slot at a time\<close>

text \<open>
  On a well-formed image the loop bodies act on slot \<open>unat bitIndex\<close> when that is below
  the capacity, and leave the buffer otherwise.
\<close>

lemma unat_mod3: "unat ((c :: uint32) mod 3) = unat c mod 3"
  by (simp add: unat_mod)

lemma mod3_eq_iff:
  "((c :: uint32) mod 3 = 0) = (unat c mod 3 = 0)"
  "((c :: uint32) mod 3 = 1) = (unat c mod 3 = 1)"
  "((c :: uint32) mod 3 = 2) = (unat c mod 3 = 2)"
  by (simp_all add: word_unat_eq_iff unat_mod)

lemma embedChannel_nat: "embedChannel c color v = putChannel (unat c mod 3) color v"
proof -
  have "unat c mod 3 = 0 \<or> unat c mod 3 = 1 \<or> unat c mod 3 = 2" by arith
  then show ?thesis
    by (auto simp: embedChannel_def putChannel_def mod3_eq_iff)
qed

lemma extractChannel_nat: "extractChannel c color = extractBit (channelOf (unat c mod 3) color)"
proof -
  have "unat c mod 3 = 0 \<or> unat c mod 3 = 1 \<or> unat c mod 3 = 2" by arith
  then show ?thesis
    by (auto simp: extractChannel_def channelOf_def mod3_eq_iff)
qed

lemma slotPos_unat:
  "slotPos w c = (x, y) \<Longrightarrow> unat x = (unat c div 3) mod unat w \<and> unat y = (unat c div 3) div unat w"
  by (auto simp: slotPos_def unat_div unat_mod)

lemma pos_index:
  fixes W :: nat
  assumes "0 < W"
  shows "p mod W + p div W * W = p" and "(p mod W < W)" and "(p div W < H) = (p < W * H)"
  using assms by (simp_all add: less_mult_imp_div_less div_less_iff_less_mult mult.commute)

lemma getPixel_slot:
  assumes wf: "wf_image img" and sp: "slotPos (size_x img) c = (x, y)"
  shows "getPixel img x y = (if unat c < capacity_nat img then Some (pixels img ! (unat c div 3)) else None)"
proof -
  let ?W = "unat (size_x img)" and ?H = "unat (size_y img)"
  from wf have W: "0 < ?W" by (simp add: wf_image_def word_less_nat_alt)
  from slotPos_unat [OF sp] have x: "unat x = (unat c div 3) mod ?W" and y: "unat y = (unat c div 3) div ?W" by simp_all
  have xl: "x < size_x img" using W by (simp add: word_less_nat_alt x)
  have yl: "(y < size_y img) = (unat c div 3 < ?W * ?H)"
    using pos_index(3) [OF W] by (simp add: word_less_nat_alt y)
  have idx: "unat x + unat y * ?W = unat c div 3" using pos_index(1) [OF W] by (simp add: x y)
  have c3: "(unat c div 3 < ?W * ?H) = (unat c < capacity_nat img)"
    by (auto simp: capacity_nat_def)
  show ?thesis by (simp add: getPixel_def xl yl idx c3)
qed

lemma setPixel_slot:
  assumes wf: "wf_image img" and sp: "slotPos (size_x img) c = (x, y)"
  shows "setPixel img x y col = (if unat c < capacity_nat img then Some (img\<lparr>pixels := (pixels img)[unat c div 3 := col]\<rparr>) else None)"
proof -
  let ?W = "unat (size_x img)" and ?H = "unat (size_y img)"
  from wf have W: "0 < ?W" by (simp add: wf_image_def word_less_nat_alt)
  from slotPos_unat [OF sp] have x: "unat x = (unat c div 3) mod ?W" and y: "unat y = (unat c div 3) div ?W" by simp_all
  have xl: "x < size_x img" using W by (simp add: word_less_nat_alt x)
  have yl: "(y < size_y img) = (unat c div 3 < ?W * ?H)"
    using pos_index(3) [OF W] by (simp add: word_less_nat_alt y)
  have idx: "unat x + unat y * ?W = unat c div 3" using pos_index(1) [OF W] by (simp add: x y)
  have c3: "(unat c div 3 < ?W * ?H) = (unat c < capacity_nat img)"
    by (auto simp: capacity_nat_def)
  show ?thesis by (simp add: setPixel_def xl yl idx c3)
qed

lemma embedStep_nat:
  assumes wf: "wf_image img"
  shows "embedStep (img, c) v = (if unat c < capacity_nat img then Some (putSlot img (unat c) v, c + 1) else None)"
proof -
  obtain x y where sp: "slotPos (size_x img) c = (x, y)" by (cases "slotPos (size_x img) c")
  show ?thesis
    by (simp add: embedStep_def sp getPixel_slot [OF wf sp] setPixel_slot [OF wf sp] putSlot_def embedChannel_nat)
qed

lemma extractStep_nat:
  assumes wf: "wf_image img"
  shows "extractStep img c = (if unat c < capacity_nat img then Some (slot_lsb img (unat c), c + 1) else None)"
proof -
  obtain x y where sp: "slotPos (size_x img) c = (x, y)" by (cases "slotPos (size_x img) c")
  show ?thesis
    by (simp add: extractStep_def sp getPixel_slot [OF wf sp] slot_lsb_def slot_byte_def extractChannel_nat)
qed

lemma putSlot_sizes [simp]:
  "size_x (putSlot img i v) = size_x img" "size_y (putSlot img i v) = size_y img"
  "length (pixels (putSlot img i v)) = length (pixels img)"
  "capacity_nat (putSlot img i v) = capacity_nat img"
  "wf_image (putSlot img i v) = wf_image img"
  by (simp_all add: putSlot_def capacity_nat_def wf_image_def)

lemma wf_capacity: "wf_image img \<Longrightarrow> capacity_nat img = 3 * length (pixels img)"
  by (simp add: wf_image_def capacity_nat_def)

lemma slot_index_eq: "(i div 3 = j div 3 \<and> i mod 3 = j mod 3) = (i = (j::nat))"
  by (metis div_mult_mod_eq)

lemma slot_byte_putSlot:
  assumes "i < 3 * length (pixels img)"
  shows "slot_byte (putSlot img i v) j = (if j = i then embedBit (slot_byte img i) v else slot_byte img j)"
proof (cases "j div 3 = i div 3")
  case True
  have m: "i mod 3 = 0 \<or> i mod 3 = 1 \<or> i mod 3 = 2" "j mod 3 = 0 \<or> j mod 3 = 1 \<or> j mod 3 = 2" by arith+
  have il: "i div 3 < length (pixels img)" using assms by simp
  have e: "(j = i) = (j mod 3 = i mod 3)" using True slot_index_eq [of j i] by simp
  show ?thesis using m il True
    by (auto simp add: e slot_byte_def putSlot_def putChannel_def channelOf_def)
next
  case False
  then have "j \<noteq> i" by auto
  with False show ?thesis by (simp add: slot_byte_def putSlot_def)
qed

lemma alpha_putSlot: "col_a (pixels (putSlot img i v) ! p) = col_a (pixels img ! p)"
  by (cases "p = i div 3"; cases "i div 3 < length (pixels img)") (simp_all add: putSlot_def putChannel_def not_less list_update_beyond)

section \<open>The encoder loops embed the bit stream\<close>

lemma shift_bit: "(drop_bit i (w :: 'a::len word) AND 1 \<noteq> 0) = bit w i"
  by (simp add: and_one_eq bit_iff_odd_drop_bit mod_2_eq_odd)

lemma embedLoop_bits: "embedLoop f ks st = embedBits (map f ks) st"
  by (induction ks arbitrary: st) (simp_all split: option.splits)

lemma embedBits_append:
  "embedBits (xs @ ys) st = (case embedBits xs st of None \<Rightarrow> None | Some st' \<Rightarrow> embedBits ys st')"
  by (induction xs arbitrary: st) (simp_all split: option.splits)

lemma embedData_bits: "embedData secretData st = embedBits (concat (map byteBits secretData)) st"
  by (induction secretData arbitrary: st)
     (simp_all add: embedBits_append embedLoop_bits byteBits_def shift_bit split: option.splits)

lemma encode_bits:
  "encode img secretData =
     (if capacityBits img < 32 + ucast (of_nat (length secretData) :: uint32) * 8
      then Some (InsufficientCapacity, img)
      else map_option (\<lambda>st. (EncodeSuccess, fst st))
             (embedBits (streamBits (of_nat (length secretData)) secretData) (img, 0)))"
  by (simp add: encode_def Let_def streamBits_def sizeBits_def embedBits_append embedLoop_bits
        embedData_bits shift_bit split: option.splits)

lemma inRange_Suc: "inRange img c (Suc n) = (unat c < capacity_nat img \<and> inRange img (c + 1) n)"
  by (simp add: inRange_def All_less_Suc2 add.assoc)

lemma inRange_0 [simp]: "inRange img c 0"
  by (simp add: inRange_def)

lemma putBits_sizes [simp]:
  "size_x (putBits vs img c) = size_x img" "size_y (putBits vs img c) = size_y img"
  "length (pixels (putBits vs img c)) = length (pixels img)"
  "capacity_nat (putBits vs img c) = capacity_nat img"
  "wf_image (putBits vs img c) = wf_image img"
  by (induction vs arbitrary: img c) simp_all

lemma inRange_putSlot [simp]: "inRange (putSlot img i v) c n = inRange img c n"
  by (simp add: inRange_def)

lemma embedBits_eq:
  "wf_image img \<Longrightarrow>
   embedBits vs (img, c) =
     (if inRange img c (length vs) then Some (putBits vs img c, c + of_nat (length vs)) else None)"
proof (induction vs arbitrary: img c)
  case Nil
  then show ?case by simp
next
  case (Cons v vs)
  show ?case
  proof (cases "unat c < capacity_nat img")
    case True
    with Cons.prems Cons.IH [of "putSlot img (unat c) v" "c + 1"] show ?thesis
      by (simp add: embedStep_nat inRange_Suc add.assoc)
  next
    case False
    with Cons.prems show ?thesis by (simp add: embedStep_nat inRange_Suc)
  qed
qed

lemma slot_byte_putSlot_other: "j \<noteq> i \<Longrightarrow> slot_byte (putSlot img i v) j = slot_byte img j"
proof (cases "j div 3 = i div 3")
  case True
  assume ne: "j \<noteq> i"
  have m: "i mod 3 = 0 \<or> i mod 3 = 1 \<or> i mod 3 = 2" "j mod 3 = 0 \<or> j mod 3 = 1 \<or> j mod 3 = 2" by arith+
  have e: "j mod 3 \<noteq> i mod 3" using True ne slot_index_eq [of j i] by simp
  show ?thesis
  proof (cases "i div 3 < length (pixels img)")
    case il: True
    show ?thesis using m il True e
      by (auto simp add: slot_byte_def putSlot_def putChannel_def channelOf_def)
  next
    case False
    then show ?thesis by (simp add: slot_byte_def putSlot_def list_update_beyond not_less)
  qed
next
  case False
  then show ?thesis by (simp add: slot_byte_def putSlot_def)
qed

lemma slot_byte_putSlot_high:
  "drop_bit 1 (slot_byte (putSlot img i v) j) = drop_bit 1 (slot_byte img j)"
proof (cases "j = i \<and> i < 3 * length (pixels img)")
  case True
  have "drop_bit 1 (embedBit x v) = drop_bit 1 x" for x
    by (rule bit_word_eqI) (simp add: bit_simps bit_embedBit)
  with True show ?thesis by (simp add: slot_byte_putSlot)
next
  case False
  show ?thesis
  proof (cases "j = i")
    case True
    with False have "length (pixels img) \<le> i div 3" by auto
    then show ?thesis by (simp add: slot_byte_def putSlot_def list_update_beyond)
  next
    case False
    then show ?thesis by (simp add: slot_byte_putSlot_other)
  qed
qed

lemma putBits_frame:
  "(\<forall>k<length vs. unat (c + of_nat k) \<noteq> j) \<Longrightarrow> slot_byte (putBits vs img c) j = slot_byte img j"
proof (induction vs arbitrary: img c)
  case Nil
  then show ?case by simp
next
  case (Cons v vs)
  from Cons.prems have a: "unat c \<noteq> j" and b: "\<forall>k<length vs. unat (c + 1 + of_nat k) \<noteq> j"
    by (simp_all add: All_less_Suc2 add.assoc)
  from Cons.IH [OF b] a show ?case by (simp add: slot_byte_putSlot_other)
qed

lemma putBits_high: "drop_bit 1 (slot_byte (putBits vs img c) j) = drop_bit 1 (slot_byte img j)"
  by (induction vs arbitrary: img c) (simp_all add: slot_byte_putSlot_high [simplified])

lemma putBits_alpha: "col_a (pixels (putBits vs img c) ! p) = col_a (pixels img ! p)"
  by (induction vs arbitrary: img c) (simp_all add: alpha_putSlot)

lemma unat_plus_of_nat_mod:
  "unat ((c :: uint32) + of_nat m) = (unat c + m) mod 2 ^ 32"
  by (simp add: unat_word_ariths unat_of_nat mod_add_right_eq)

lemma unat_plus_of_nat:
  "unat c + m < 2 ^ 32 \<Longrightarrow> unat ((c :: uint32) + of_nat m) = unat c + m"
  by (simp add: unat_plus_of_nat_mod)

lemma putBits_value:
  "wf_image img \<Longrightarrow> inRange img c (length vs) \<Longrightarrow> unat c + length vs \<le> 2 ^ 32 \<Longrightarrow> k < length vs \<Longrightarrow>
   slot_lsb (putBits vs img c) (unat c + k) = vs ! k"
proof (induction vs arbitrary: img c k)
  case Nil
  then show ?case by simp
next
  case (Cons v vs)
  from Cons.prems have cr: "unat c < 3 * length (pixels img)" and rest: "inRange img (c + 1) (length vs)"
    by (simp_all add: inRange_Suc wf_capacity)
  show ?case
  proof (cases k)
    case 0
    have "\<forall>k'<length vs. unat (c + 1 + of_nat k') \<noteq> unat c"
    proof (intro allI impI)
      fix k' assume "k' < length vs"
      with Cons.prems(3) have "unat c + Suc k' < 2 ^ 32" by simp
      from unat_plus_of_nat [OF this] show "unat (c + 1 + of_nat k') \<noteq> unat c"
        by (simp add: add.assoc)
    qed
    from putBits_frame [OF this] cr 0 show ?thesis
      by (simp add: slot_lsb_def slot_byte_putSlot extractBit_bit0 bit_embedBit)
  next
    case (Suc k')
    with Cons.prems have k': "k' < length vs" by simp
    with Cons.prems(3) have "unat c + 1 < 2 ^ 32" by simp
    from unat_plus_of_nat [OF this] have c1: "unat (c + 1) = unat c + 1" by simp
    from Cons.IH [of "putSlot img (unat c) v" "c + 1" k'] Cons.prems rest k' c1 Suc
    show ?thesis by simp
  qed
qed

section \<open>The decoder loops gather the slots\<close>

lemma extractLoop_eq:
  "wf_image img \<Longrightarrow>
   extractLoop img ks (acc, c) =
     (if inRange img c (length ks) then Some (gatherBits img ks acc c, c + of_nat (length ks)) else None)"
proof (induction ks arbitrary: acc c)
  case Nil
  then show ?case by simp
next
  case (Cons i ks)
  then show ?case
    by (simp add: extractStep_nat inRange_Suc add.assoc)
qed

lemma inRange_add:
  "inRange img c (m + n) = (inRange img c m \<and> inRange img (c + of_nat m) n)"
proof (induction m arbitrary: c)
  case 0
  then show ?case by simp
next
  case (Suc m)
  then show ?case by (simp add: inRange_Suc add.assoc)
qed

lemma extractData_eq:
  "wf_image img \<Longrightarrow>
   extractData img n (secretData, c) =
     (if inRange img c (8 * n) then Some (gatherBytes img n secretData c, c + of_nat (8 * n)) else None)"
proof (induction n arbitrary: secretData c)
  case 0
  then show ?case by simp
next
  case (Suc n)
  have "inRange img c (8 * Suc n) = (inRange img c 8 \<and> inRange img (c + 8) (8 * n))"
    using inRange_add [of img c 8 "8 * n"] by simp
  with Suc show ?case
    by (simp add: extractLoop_eq add.assoc)
qed

lemma bit_set_bit:
  "bit ((acc :: 'a::len word) OR push_bit i 1) j = (bit acc j \<or> (j = i \<and> j < LENGTH('a)))"
  by (auto simp: bit_simps)

lemma bit_gatherBits:
  "bit (gatherBits img ks (acc :: 'a::len word) c) j =
     (bit acc j \<or> (j < LENGTH('a) \<and> (\<exists>k<length ks. ks ! k = j \<and> slot_lsb img (unat (c + of_nat k)))))"
proof (induction ks arbitrary: acc c)
  case Nil
  then show ?case by simp
next
  case (Cons i ks)
  define acc1 where "acc1 = (if slot_lsb img (unat c) then acc OR push_bit i 1 else acc)"
  have step: "gatherBits img (i # ks) acc c = gatherBits img ks acc1 (c + 1)"
    by (simp add: acc1_def)
  have acc1: "bit acc1 j = (bit acc j \<or> (j = i \<and> j < LENGTH('a) \<and> slot_lsb img (unat c)))"
    unfolding acc1_def using bit_set_bit [of acc i j] by auto
  have ex: "(\<exists>k<length (i # ks). (i # ks) ! k = j \<and> slot_lsb img (unat (c + of_nat k))) =
        ((i = j \<and> slot_lsb img (unat c)) \<or> (\<exists>k<length ks. ks ! k = j \<and> slot_lsb img (unat (c + 1 + of_nat k))))"
    by (simp add: Ex_less_Suc2 add.assoc)
  show ?case unfolding step Cons.IH acc1 ex by auto
qed

lemma bit_gatherBits_upt:
  "bit (gatherBits img [0..<n] (0 :: 'a::len word) c) j =
     (j < LENGTH('a) \<and> j < n \<and> slot_lsb img (unat (c + of_nat j)))"
  by (auto simp: bit_gatherBits)

lemma length_gatherBytes [simp]: "length (gatherBytes img n secretData c) = length secretData + n"
  by (induction n arbitrary: secretData c) simp_all

lemma gatherBytes_old:
  "j < length secretData \<Longrightarrow> gatherBytes img n secretData c ! j = secretData ! j"
  by (induction n arbitrary: secretData c) (simp_all add: nth_append)

lemma gatherBytes_new:
  "j < n \<Longrightarrow> gatherBytes img n secretData c ! (length secretData + j) = gatherBits img [0..<8] 0 (c + of_nat (8 * j))"
proof (induction n arbitrary: secretData c j)
  case 0
  then show ?case by simp
next
  case (Suc n)
  show ?case
  proof (cases j)
    case 0
    then show ?thesis by (simp add: gatherBytes_old)
  next
    case (Suc j')
    with Suc.prems have "j' < n" by simp
    from Suc.IH [OF this, of "secretData @ [gatherBits img [0..<8] 0 c]" "c + 8"] Suc
    show ?thesis by (simp add: add.assoc)
  qed
qed

section \<open>The capacity checks in natural numbers\<close>

lemma unat_ucast_32_64: "unat (ucast (w :: uint32) :: uint64) = unat w"
proof -
  have "unat w < 2 ^ 32" using unsigned_less [of w] by simp
  then have "unat w < 2 ^ 64" by simp
  then show ?thesis by (simp add: unsigned_ucast_eq take_bit_nat_eq_self)
qed

lemma unat_capacityBits: "wf_image img \<Longrightarrow> unat (capacityBits img) = capacity_nat img"
proof -
  assume wf: "wf_image img"
  let ?W = "unat (size_x img)" and ?H = "unat (size_y img)"
  from wf have b: "?W * ?H * 3 < 2 ^ 64" by (simp add: wf_image_def)
  have "unat (capacityBits img) = (?W * ?H * 3) mod 2 ^ 64"
    by (simp add: capacityBits_def unat_word_ariths unat_ucast_32_64 mod_mult_left_eq mod_mult_right_eq)
  with b show ?thesis by (simp add: capacity_nat_def)
qed

lemma unat_requiredBits: "unat ((ucast (n :: uint32) :: uint64) * 8 + 32) = 32 + 8 * unat n"
proof -
  have u: "unat n < 4294967296" using unsigned_less [of n] by simp
  have m: "unat ((ucast n :: uint64) * 8) = unat n * 8"
    using u by (simp add: unat_word_ariths unat_ucast_32_64)
  have "unat ((ucast n :: uint64) * 8 + 32) = unat ((ucast n :: uint64) * 8) + unat (32 :: uint64)"
    using u by (subst unat_add_lem [THEN iffD1]) (simp_all add: m)
  then show ?thesis by (simp add: m)
qed

lemma unat_requiredBits': "unat (32 + (ucast (n :: uint32) :: uint64) * 8) = 32 + 8 * unat n"
  using unat_requiredBits [of n] by (simp add: add.commute)

section \<open>Encode and decode in closed form\<close>

lemma length_byteBits [simp]: "length (byteBits x) = 8"
  by (simp add: byteBits_def)

lemma length_sizeBits [simp]: "length (sizeBits n) = 32"
  by (simp add: sizeBits_def)

lemma length_payloadBits [simp]: "length (concat (map byteBits secretData)) = 8 * length secretData"
  by (induction secretData) simp_all

lemma length_streamBits [simp]: "length (streamBits n secretData) = 32 + 8 * length secretData"
  by (simp add: streamBits_def)

lemma payloadBits_nth:
  "j < length secretData \<Longrightarrow> k < 8 \<Longrightarrow> concat (map byteBits secretData) ! (8 * j + k) = bit (secretData ! j) k"
proof (induction secretData arbitrary: j)
  case Nil
  then show ?case by simp
next
  case (Cons x xs)
  show ?case
  proof (cases j)
    case 0
    with Cons.prems show ?thesis by (simp add: nth_append byteBits_def)
  next
    case (Suc j')
    with Cons.prems Cons.IH [of j'] show ?thesis by (simp add: nth_append)
  qed
qed

lemma streamBits_header: "i < 32 \<Longrightarrow> streamBits n secretData ! i = bit n i"
  by (simp add: streamBits_def nth_append sizeBits_def)

lemma streamBits_payload:
  "j < length secretData \<Longrightarrow> k < 8 \<Longrightarrow> streamBits n secretData ! (32 + 8 * j + k) = bit (secretData ! j) k"
  by (simp add: streamBits_def nth_append payloadBits_nth add.assoc)

lemma inRange_from: "unat c + m \<le> capacity_nat img \<Longrightarrow> inRange img c m"
proof -
  assume a: "unat c + m \<le> capacity_nat img"
  have "unat (c + of_nat k) < capacity_nat img" if "k < m" for k
  proof -
    have "unat (c + of_nat k) \<le> unat c + k" by (simp add: unat_plus_of_nat_mod)
    with a that show ?thesis by simp
  qed
  then show ?thesis by (simp add: inRange_def)
qed

lemma inRange_header: "inRange img 0 32 = (32 \<le> capacity_nat img)"
proof
  assume "inRange img 0 32"
  then have "\<forall>k<32. unat (0 + of_nat k :: uint32) < capacity_nat img"
    by (simp only: inRange_def)
  then have "unat (0 + of_nat 31 :: uint32) < capacity_nat img"
    by (rule allE [of _ 31]) simp
  then show "32 \<le> capacity_nat img" by simp
next
  assume "32 \<le> capacity_nat img"
  then show "inRange img 0 32" by (simp add: inRange_from)
qed

lemma encode_check:
  "wf_image img \<Longrightarrow>
   (capacityBits img < 32 + ucast (of_nat n :: uint32) * 8) = (capacity_nat img < 32 + 8 * (n mod 2 ^ 32))"
  by (simp add: word_less_nat_alt unat_capacityBits unat_requiredBits' unat_of_nat)

lemma decode_check:
  "wf_image img \<Longrightarrow>
   (capacityBits img < ucast (n :: uint32) * 8 + 32) = (capacity_nat img < 32 + 8 * unat n)"
  by (simp add: word_less_nat_alt unat_capacityBits unat_requiredBits)

lemma encode_eq:
  assumes wf: "wf_image img"
  shows "encode img secretData =
     (if capacity_nat img < 32 + 8 * (length secretData mod 2 ^ 32) then Some (InsufficientCapacity, img)
      else if inRange img 0 (32 + 8 * length secretData)
           then Some (EncodeSuccess, putBits (streamBits (of_nat (length secretData)) secretData) img 0)
           else None)"
  by (simp add: encode_bits encode_check [OF wf] embedBits_eq [OF wf])

lemma decode_eq:
  assumes wf: "wf_image img"
  shows "decode img =
     (if capacity_nat img < 32 then None
      else if capacity_nat img < 32 + 8 * unat (gatherBits img [0..<32] (0 :: uint32) 0) then Some InvalidLength
      else if gatherBits img [0..<32] (0 :: uint32) 0 = 0 then Some EmptyPayload
      else Some (Decoded (gatherBytes img (unat (gatherBits img [0..<32] (0 :: uint32) 0)) [] 32)))"
proof (cases "capacity_nat img < 32")
  case True
  then show ?thesis
    by (simp add: decode_def extractLoop_eq [OF wf] inRange_header)
next
  case False
  let ?n = "gatherBits img [0..<32] (0 :: uint32) 0"
  have r: "inRange img 32 (8 * unat ?n)" if "\<not> capacity_nat img < 32 + 8 * unat ?n"
    using that by (intro inRange_from) simp
  from False show ?thesis
    by (auto simp add: decode_def extractLoop_eq [OF wf] inRange_header decode_check [OF wf]
          extractData_eq [OF wf] r)
qed

section \<open>Wire layout and round trip without wrap-around\<close>

lemma unat_of_nat_small: "m < 2 ^ 32 \<Longrightarrow> unat (of_nat m :: uint32) = m"
  by (simp add: unat_of_nat)

lemma encoded_lsb:
  assumes "wf_image img" and "inRange img 0 (length vs)" and "length vs \<le> 2 ^ 32" and "k < length vs"
  shows "slot_lsb (putBits vs img 0) k = vs ! k"
  using putBits_value [of img 0 vs k] assms by simp

lemma inRange_stream:
  "32 + 8 * n \<le> capacity_nat img \<Longrightarrow> inRange img 0 (32 + 8 * n)"
  by (rule inRange_from) simp

lemma encode_success:
  assumes wf: "wf_image img" and len: "length secretData < 2 ^ 32"
    and cap: "32 + 8 * length secretData \<le> capacity_nat img"
  shows "encode img secretData =
           Some (EncodeSuccess, putBits (streamBits (of_nat (length secretData)) secretData) img 0)"
  using len cap by (simp add: encode_eq [OF wf] inRange_stream)

lemma header_read:
  assumes "\<forall>i<32. slot_lsb img i = bit (n :: uint32) i"
  shows "gatherBits img [0..<32] (0 :: uint32) 0 = n"
proof (rule bit_word_eqI)
  fix j assume "j < LENGTH(32)"
  then have j: "j < 32" by simp
  then have "unat (of_nat j :: uint32) = j" by (simp add: unat_of_nat)
  with j assms show "bit (gatherBits img [0..<32] (0 :: uint32) 0) j = bit n j"
    by (simp add: bit_gatherBits_upt)
qed

lemma payload_read:
  assumes n: "32 + 8 * length secretData \<le> 2 ^ 32"
    and bits: "\<forall>j<length secretData. \<forall>k<8. slot_lsb img (32 + 8 * j + k) = bit (secretData ! j) k"
  shows "gatherBytes img (length secretData) [] 32 = secretData"
proof (rule nth_equalityI)
  show "length (gatherBytes img (length secretData) [] 32) = length secretData" by simp
next
  fix j assume "j < length (gatherBytes img (length secretData) [] 32)"
  then have j: "j < length secretData" by simp
  have nth: "gatherBytes img (length secretData) [] 32 ! j = gatherBits img [0..<8] 0 (32 + of_nat (8 * j))"
    using gatherBytes_new [OF j, of img "[]" 32] by simp
  show "gatherBytes img (length secretData) [] 32 ! j = secretData ! j"
    unfolding nth
  proof (rule bit_word_eqI)
    fix k assume "k < LENGTH(8)"
    then have k: "k < 8" by simp
    have "(32 + of_nat (8 * j) + of_nat k :: uint32) = of_nat (32 + 8 * j + k)" by simp
    moreover have "32 + 8 * j + k < 2 ^ 32" using j k n by simp
    ultimately have "unat (32 + of_nat (8 * j) + of_nat k :: uint32) = 32 + 8 * j + k"
      by (simp only: unat_of_nat_small)
    with j k bits show "bit (gatherBits img [0..<8] (0 :: Uint8) (32 + of_nat (8 * j))) k = bit (secretData ! j) k"
      by (simp add: bit_gatherBits_upt)
  qed
qed

lemma wire_layout:
  assumes wf: "wf_image img" and cap: "32 + 8 * length secretData \<le> capacity_nat img"
    and n: "32 + 8 * length secretData \<le> 2 ^ 32"
  defines "img' \<equiv> putBits (streamBits (of_nat (length secretData)) secretData) img 0"
  shows "\<forall>i<32. slot_lsb img' i = bit (of_nat (length secretData) :: uint32) i"
    and "\<forall>j<length secretData. \<forall>k<8. slot_lsb img' (32 + 8 * j + k) = bit (secretData ! j) k"
proof -
  let ?bits = "streamBits (of_nat (length secretData)) secretData"
  have r: "inRange img 0 (length ?bits)" using cap by (simp add: inRange_stream)
  have l: "length ?bits \<le> 2 ^ 32" using n by simp
  show "\<forall>i<32. slot_lsb img' i = bit (of_nat (length secretData) :: uint32) i"
    unfolding img'_def using encoded_lsb [OF wf r l] by (simp add: streamBits_header)
  show "\<forall>j<length secretData. \<forall>k<8. slot_lsb img' (32 + 8 * j + k) = bit (secretData ! j) k"
    unfolding img'_def
  proof (intro allI impI)
    fix j k assume j: "j < length secretData" and k: "k < (8::nat)"
    then have "32 + 8 * j + k < length ?bits" by simp
    from encoded_lsb [OF wf r l this] j k
    show "slot_lsb (putBits ?bits img 0) (32 + 8 * j + k) = bit (secretData ! j) k"
      by (simp add: streamBits_payload)
  qed
qed

lemma round_trip_general:
  assumes wf: "wf_image img" and cap: "32 + 8 * length secretData \<le> capacity_nat img"
    and n: "32 + 8 * length secretData \<le> 2 ^ 32"
  shows "roundTrip img secretData = Some (if secretData = [] then EmptyPayload else Decoded secretData)"
proof -
  let ?n = "of_nat (length secretData) :: uint32"
  let ?img' = "putBits (streamBits ?n secretData) img 0"
  from n have len: "length secretData < 2 ^ 32" by simp
  have enc: "encode img secretData = Some (EncodeSuccess, ?img')"
    by (rule encode_success [OF wf len cap])
  have wf': "wf_image ?img'" using wf by simp
  have hdr: "gatherBits ?img' [0..<32] (0 :: uint32) 0 = ?n"
    by (rule header_read) (rule wire_layout(1) [OF wf cap n])
  have pay: "gatherBytes ?img' (length secretData) [] 32 = secretData"
    by (rule payload_read [OF n]) (rule wire_layout(2) [OF wf cap n])
  have un: "unat ?n = length secretData" using len by (simp add: unat_of_nat)
  have z: "(?n = 0) = (secretData = [])"
    using un by (metis length_0_conv unat_eq_zero)
  have "decode ?img' = Some (if secretData = [] then EmptyPayload else Decoded secretData)"
    using cap by (simp add: decode_eq [OF wf'] hdr un pay z)
  with enc show ?thesis by (simp add: roundTrip_def)
qed

section \<open>Concrete buffers\<close>

lemma plainImage_simps [simp]:
  "size_x (plainImage w h) = w" "size_y (plainImage w h) = h"
  "length (pixels (plainImage w h)) = unat w * unat h"
  "capacity_nat (plainImage w h) = unat w * unat h * 3"
  by (simp_all add: plainImage_def capacity_nat_def)

lemma wf_plainImage:
  "0 < w \<Longrightarrow> 0 < h \<Longrightarrow> unat w * unat h < 2 ^ 62 \<Longrightarrow> wf_image (plainImage w h)"
  by (simp add: wf_image_def mult.commute)

section \<open>Consequences for encode and decode\<close>

lemma cursorAfter_of_nat: "cursorAfter k = of_nat k"
  by (induction k) (simp_all add: cursorAfter_def)

lemma header_bit:
  "j < 32 \<Longrightarrow> bit (gatherBits img [0..<32] (0 :: uint32) 0) j = slot_lsb img j"
  by (simp add: bit_gatherBits_upt unat_of_nat)

lemma encode_Success_D:
  assumes wf: "wf_image img" and enc: "encode img secretData = Some (EncodeSuccess, img')"
  shows "img' = putBits (streamBits (of_nat (length secretData)) secretData) img 0"
    and "32 + 8 * (length secretData mod 2 ^ 32) \<le> capacity_nat img"
    and "inRange img 0 (32 + 8 * length secretData)"
  using enc by (auto simp: encode_eq [OF wf] split: if_splits)

lemma decode_out_of_range_iff:
  "wf_image img \<Longrightarrow> (decode img = None) = (capacity_nat img < 32)"
  by (simp add: decode_eq)

lemma decode_invalid_length_iff:
  "wf_image img \<Longrightarrow> 32 \<le> capacity_nat img \<Longrightarrow>
   (decode img = Some InvalidLength) =
     (capacity_nat img < 32 + 8 * unat (gatherBits img [0..<32] (0 :: uint32) 0))"
  by (simp add: decode_eq)

lemma encode_in_range:
  "wf_image img \<Longrightarrow> length secretData < 2 ^ 32 \<Longrightarrow> encode img secretData \<noteq> None"
  by (simp add: encode_eq inRange_stream)

lemma frame_beyond:
  assumes "32 + 8 * n \<le> i"
  shows "\<forall>k<32 + 8 * n. unat (0 + of_nat k :: uint32) \<noteq> i"
proof (intro allI impI)
  fix k assume "k < 32 + 8 * n"
  moreover have "unat (0 + of_nat k :: uint32) \<le> k" by (simp add: unat_of_nat)
  ultimately show "unat (0 + of_nat k :: uint32) \<noteq> i" using assms by simp
qed

lemma of_nat_mod_size: "(of_nat (n mod 2 ^ 32) :: uint32) = of_nat n"
  by (simp add: word_of_nat_eq_iff take_bit_eq_mod)


lemma encode_frame:
  assumes wf: "wf_image img" and enc: "encode img secretData = Some (EncodeSuccess, img')"
  shows "size_x img' = size_x img" and "size_y img' = size_y img"
    and "length (pixels img') = length (pixels img)"
    and "wf_image img'"
    and "drop_bit 1 (slot_byte img' i) = drop_bit 1 (slot_byte img i)"
    and "32 + 8 * length secretData \<le> i \<Longrightarrow> slot_byte img' i = slot_byte img i"
    and "col_a (pixels img' ! q) = col_a (pixels img ! q)"
proof -
  note e = encode_Success_D(1) [OF wf enc]
  show "size_x img' = size_x img" "size_y img' = size_y img"
    "length (pixels img') = length (pixels img)" "wf_image img'"
    using wf by (simp_all add: e)
  show "drop_bit 1 (slot_byte img' i) = drop_bit 1 (slot_byte img i)"
    unfolding e by (rule putBits_high)
  show "col_a (pixels img' ! q) = col_a (pixels img ! q)"
    unfolding e by (rule putBits_alpha)
  show "slot_byte img' i = slot_byte img i" if "32 + 8 * length secretData \<le> i"
    unfolding e using frame_beyond [OF that] by (intro putBits_frame) simp
qed

lemma header_zero:
  "\<forall>i<32. \<not> slot_lsb img i \<Longrightarrow> gatherBits img [0..<32] (0 :: uint32) 0 = 0"
  by (rule header_read) simp

lemma encode_hugeSecret: "encode (plainImage 4 3) hugeSecret = None"
proof -
  have wf: "wf_image (plainImage 4 3)" by (simp add: wf_plainImage)
  have "\<not> inRange (plainImage 4 3) 0 (32 + 8 * 4294967296)"
  proof
    assume "inRange (plainImage 4 3) 0 (32 + 8 * 4294967296)"
    then have "\<forall>k<32 + 8 * 4294967296. unat (0 + of_nat k :: uint32) < capacity_nat (plainImage 4 3)"
      by (simp only: inRange_def)
    then have "unat (0 + of_nat 36 :: uint32) < capacity_nat (plainImage 4 3)"
      by (rule allE [of _ 36]) simp
    then show False by simp
  qed
  then show ?thesis
    by (simp add: encode_eq [OF wf] hugeSecret_def)
qed

lemma inRange_0_iff: "inRange img 0 m = (min m (2 ^ 32) \<le> capacity_nat img)"
proof
  assume r: "inRange img 0 m"
  show "min m (2 ^ 32) \<le> capacity_nat img"
  proof (cases "min m (2 ^ 32)")
    case 0
    then show ?thesis by simp
  next
    case (Suc k)
    then have k: "k < m" "k < 2 ^ 32" by (simp_all add: min_def split: if_splits)
    from r k(1) have "unat (0 + of_nat k :: uint32) < capacity_nat img"
      by (simp only: inRange_def)
    with k(2) have "k < capacity_nat img" by (simp add: unat_of_nat)
    with Suc show ?thesis by simp
  qed
next
  assume c: "min m (2 ^ 32) \<le> capacity_nat img"
  have "unat (0 + of_nat k :: uint32) < capacity_nat img" if "k < m" for k
  proof -
    have "unat (0 + of_nat k :: uint32) = k mod 2 ^ 32" by (simp add: unat_of_nat)
    moreover have "k mod 2 ^ 32 < min m (2 ^ 32)"
      using that by (simp add: min_def le_less_trans [OF mod_less_eq_dividend])
    ultimately show ?thesis using c by simp
  qed
  then show "inRange img 0 m" by (simp add: inRange_def)
qed

lemma header_pass:
  assumes wf: "wf_image img" and cap: "32 \<le> capacity_nat img"
  shows "embedLoop (\<lambda>i. drop_bit i (n :: uint32) AND 1 \<noteq> 0) [0..<32] (img, 0)
           = Some (putBits (sizeBits n) img 0, 32)"
    and "\<forall>i<32. slot_lsb (putBits (sizeBits n) img 0) i = bit n i"
proof -
  have r: "inRange img 0 (length (sizeBits n))" using cap by (simp add: inRange_header)
  show "embedLoop (\<lambda>i. drop_bit i n AND 1 \<noteq> 0) [0..<32] (img, 0) = Some (putBits (sizeBits n) img 0, 32)"
    using r by (simp add: embedLoop_bits shift_bit embedBits_eq [OF wf] sizeBits_def)
  show "\<forall>i<32. slot_lsb (putBits (sizeBits n) img 0) i = bit n i"
    using encoded_lsb [OF wf r] by (simp add: sizeBits_def)
qed

lemma encode_after_header:
  "embedLoop (\<lambda>i. drop_bit i (of_nat (length secretData) :: uint32) AND 1 \<noteq> 0) [0..<32] (img, 0) = Some st \<Longrightarrow>
   \<not> capacityBits img < 32 + ucast (of_nat (length secretData) :: uint32) * 8 \<Longrightarrow>
   encode img secretData = map_option (\<lambda>st'. (EncodeSuccess, fst st')) (embedData secretData st)"
  by (simp add: encode_def Let_def split: option.splits)

lemma bit_of_nat_mod: "bit (of_nat n :: uint32) i = (i < 32 \<and> bit (n mod 2 ^ 32) i)"
proof -
  have "n mod 2 ^ 32 = take_bit 32 n" by (simp only: take_bit_eq_mod)
  then have "bit (n mod 2 ^ 32) i = (i < 32 \<and> bit n i)" by (simp only: bit_take_bit_iff)
  moreover have "bit (of_nat n :: uint32) i = (i < 32 \<and> bit n i)" by (simp add: bit_of_nat_iff)
  ultimately show ?thesis by blast
qed

lemma no_capacity_2p32: "wf_image img \<Longrightarrow> capacity_nat img \<noteq> 2 ^ 32"
proof
  assume "wf_image img" and e: "capacity_nat img = 2 ^ 32"
  then have "3 * length (pixels img) = 4294967296" by (simp add: wf_capacity)
  then show False by presburger
qed


lemma bit1_ge2: "bit (w :: uint32) 1 \<Longrightarrow> 2 \<le> unat w"
proof -
  assume "bit w 1"
  then have "bit (unat w) 1" by (simp add: bit_unsigned_iff)
  then have "odd (unat w div 2)" by (simp add: bit_iff_odd)
  then have "unat w div 2 \<noteq> 0" by (metis even_zero)
  then show ?thesis by linarith
qed

section \<open>The decoder with unchecked reads agrees with the checked one\<close>

lemma extractStep_unchecked:
  "extractStep img c = Some r \<Longrightarrow> extractStepUnchecked stray img c = r"
  by (auto simp: extractStep_def extractStepUnchecked_def getPixelUnchecked_def split: prod.splits option.splits)

lemma extractLoop_unchecked:
  "extractLoop img ks st = Some r \<Longrightarrow> extractLoopUnchecked stray img ks st = r"
proof (induction ks arbitrary: st)
  case Nil
  then show ?case by simp
next
  case (Cons i ks)
  from Cons.prems obtain bitv c' where s: "extractStep img (snd st) = Some (bitv, c')"
    by (auto split: option.splits)
  from extractStep_unchecked [OF s] have u: "extractStepUnchecked stray img (snd st) = (bitv, c')" .
  from Cons.prems s have "extractLoop img ks (if bitv then fst st OR push_bit i 1 else fst st, c') = Some r"
    by simp
  from Cons.IH [OF this] show ?case by (simp add: u)
qed

lemma extractData_unchecked:
  "extractData img n st = Some r \<Longrightarrow> extractDataUnchecked stray img n st = r"
proof (induction n arbitrary: st)
  case 0
  then show ?case by simp
next
  case (Suc n)
  from Suc.prems obtain x c' where s: "extractLoop img [0..<8] (0 :: Uint8, snd st) = Some (x, c')"
    by (auto split: option.splits)
  from extractLoop_unchecked [OF s] have u: "extractLoopUnchecked stray img [0..<8] (0 :: Uint8, snd st) = (x, c')" .
  from Suc.prems s have "extractData img n (fst st @ [x], c') = Some r" by simp
  from Suc.IH [OF this] show ?case by (simp add: u)
qed

lemma decode_unchecked:
  "decode img = Some r \<Longrightarrow> decodeUnchecked stray img = r"
proof -
  assume d: "decode img = Some r"
  then obtain n c where h: "extractLoop img [0..<32] (0 :: uint32, 0) = Some (n, c)"
    by (auto simp: decode_def split: option.splits)
  from extractLoop_unchecked [OF h]
  have u: "extractLoopUnchecked stray img [0..<32] (0 :: uint32, 0) = (n, c)" .
  show ?thesis
  proof (cases "(ucast n :: uint64) * 8 + 32 > capacityBits img \<or> n = 0")
    case True
    with d h u show ?thesis by (auto simp: decode_def decodeUnchecked_def)
  next
    case False
    with d h obtain st where p: "extractData img (unat n) ([], c) = Some st" and r: "r = Decoded (fst st)"
      by (auto simp: decode_def split: option.splits)
    from extractData_unchecked [OF p] False u r show ?thesis
      by (simp add: decodeUnchecked_def)
  qed
qed

lemma decodeUnchecked_invalid:
  "wf_image img \<Longrightarrow>
   (decodeUnchecked stray img = InvalidLength) = (capacity_nat img < 32 + 8 * unat (decodedSize stray img))"
  by (auto simp: decodeUnchecked_def decodedSize_def decode_check split: prod.splits)

lemma decodedSize_in_range:
  assumes wf: "wf_image img" and cap: "32 \<le> capacity_nat img"
  shows "decodedSize stray img = gatherBits img [0..<32] (0 :: uint32) 0"
proof -
  have "extractLoop img [0..<32] (0 :: uint32, 0) = Some (gatherBits img [0..<32] 0 0, 0 + of_nat (length [0..<32]))"
    using cap by (simp only: extractLoop_eq [OF wf]) (simp add: inRange_header)
  from extractLoop_unchecked [OF this] show ?thesis by (simp add: decodedSize_def)
qed

lemma decode_total_in_range:
  "wf_image img \<Longrightarrow> 32 \<le> capacity_nat img \<Longrightarrow> decode img = Some (decodeUnchecked stray img)"
proof -
  assume wf: "wf_image img" and cap: "32 \<le> capacity_nat img"
  then obtain r where r: "decode img = Some r"
    using decode_out_of_range_iff [OF wf] by (cases "decode img") auto
  from decode_unchecked [OF r] r show ?thesis by simp
qed

section \<open>The claims\<close>

text \<open>
  C1. Round trip: for every well-formed pixel buffer whose slots the 32-bit cursor can
  number (\<open>W * H * 3 \<le> 2^32\<close>, which holds for every image the library can hold: it has
  fewer than \<open>2^30\<close> pixels) and every payload of \<open>n\<close> bytes with
  \<open>32 + 8 * n \<le> W * H * 3\<close>, decoding the buffer that encoding leaves returns exactly the
  payload bytes, in order; for \<open>n = 0\<close> the decoder reports them as \<open>EmptyPayload\<close>, which
  carries no bytes.
\<close>

theorem C1_round_trip:
  assumes "wf_image img" and "capacity_nat img \<le> 2 ^ 32"
    and "32 + 8 * length secretData \<le> capacity_nat img"
  shows "roundTrip img secretData = Some (if secretData = [] then EmptyPayload else Decoded secretData)
       \<and> map_option decoded_bytes (roundTrip img secretData) = Some secretData"
proof -
  from assms(2,3) have "32 + 8 * length secretData \<le> 2 ^ 32" by simp
  from round_trip_general [OF assms(1,3) this] show ?thesis by (simp add: decoded_bytes_def)
qed

text \<open>The scenario of the specification: a 10 by 10 image and the payload \<open>AB\<close>.\<close>

theorem C1_round_trip_witness:
  "wf_image (plainImage 10 10) \<and> capacity_nat (plainImage 10 10) \<le> 2 ^ 32
   \<and> 32 + 8 * length [0x41, 0x42 :: Uint8] \<le> capacity_nat (plainImage 10 10)
   \<and> roundTrip (plainImage 10 10) [0x41, 0x42] = Some (Decoded [0x41, 0x42])"
  using C1_round_trip [of "plainImage 10 10" "[0x41, 0x42]"] by (simp add: wf_plainImage)

text \<open>
  C2. Capacity check: for every well-formed pixel buffer and every payload of the data
  model (\<open>n \<le> 2^32 - 1\<close> bytes), encoding succeeds exactly when
  \<open>32 + 8 * n \<le> W * H * 3\<close> and otherwise returns \<open>InsufficientCapacity\<close> together with the
  buffer as it was given: the check comes before any channel byte is written.
\<close>

theorem C2_capacity_check:
  assumes "wf_image img" and "length secretData < 2 ^ 32"
  shows "(map_option fst (encode img secretData) = Some EncodeSuccess)
           = (32 + 8 * length secretData \<le> capacity_nat img)
       \<and> (map_option fst (encode img secretData) = Some InsufficientCapacity)
           = (capacity_nat img < 32 + 8 * length secretData)
       \<and> (capacity_nat img < 32 + 8 * length secretData
            \<longrightarrow> encode img secretData = Some (InsufficientCapacity, img))"
  using assms by (auto simp: encode_eq inRange_stream)

text \<open>
  The boundary: 48 bits into a 4 by 4 image (capacity 48) succeed, 40 bits into a 13 by 1
  image (capacity 39) fail.
\<close>

theorem C2_capacity_check_witness:
  "wf_image (plainImage 4 4) \<and> length [0x41, 0x42 :: Uint8] < 2 ^ 32
   \<and> 32 + 8 * length [0x41, 0x42 :: Uint8] = capacity_nat (plainImage 4 4)
   \<and> map_option fst (encode (plainImage 4 4) [0x41, 0x42]) = Some EncodeSuccess
   \<and> wf_image (plainImage 13 1)
   \<and> 32 + 8 * length [0x41 :: Uint8] = capacity_nat (plainImage 13 1) + 1
   \<and> encode (plainImage 13 1) [0x41] = Some (InsufficientCapacity, plainImage 13 1)"
  using C2_capacity_check [of "plainImage 4 4" "[0x41, 0x42]"]
    C2_capacity_check [of "plainImage 13 1" "[0x41]"]
  by (simp add: wf_plainImage)



text \<open>
  C4. Wire layout: after every successful encode of a payload of \<open>n\<close> bytes into a
  well-formed pixel buffer with \<open>W * H * 3 \<le> 2^32\<close>, the low bit of slot \<open>i\<close>, for
  \<open>i < 32\<close>, is bit \<open>i\<close> of the 32-bit length \<open>n\<close>, and the low bit of slot
  \<open>32 + 8 * j + k\<close>, for \<open>j < n\<close> and \<open>k < 8\<close>, is bit \<open>k\<close> of payload byte \<open>j\<close>.
\<close>

theorem C4_wire_layout:
  assumes "wf_image img" and "capacity_nat img \<le> 2 ^ 32"
    and "encode img secretData = Some (EncodeSuccess, img')"
  shows "(\<forall>i<32. slot_lsb img' i = bit (of_nat (length secretData) :: uint32) i)
       \<and> (\<forall>j<length secretData. \<forall>k<8. slot_lsb img' (32 + 8 * j + k) = bit (secretData ! j) k)"
proof -
  note d = encode_Success_D [OF assms(1,3)]
  from d(3) have "min (32 + 8 * length secretData) (2 ^ 32) \<le> capacity_nat img"
    by (simp only: inRange_0_iff)
  with assms(2) no_capacity_2p32 [OF assms(1)]
  have cap: "32 + 8 * length secretData \<le> capacity_nat img"
    by (simp add: min_def split: if_splits)
  with assms(2) have n: "32 + 8 * length secretData \<le> 2 ^ 32" by simp
  from wire_layout [OF assms(1) cap n] show ?thesis by (simp only: d(1))
qed

text \<open>The payload \<open>AB\<close> in a 10 by 10 image: header bits 0 and 1, and three payload bits.\<close>

theorem C4_wire_layout_witness:
  "wf_image (plainImage 10 10) \<and> capacity_nat (plainImage 10 10) \<le> 2 ^ 32
   \<and> encode (plainImage 10 10) [0x41, 0x42] =
        Some (EncodeSuccess, putBits (streamBits 2 [0x41, 0x42]) (plainImage 10 10) 0)
   \<and> slot_lsb (putBits (streamBits 2 [0x41, 0x42]) (plainImage 10 10) 0) 0 = False
   \<and> slot_lsb (putBits (streamBits 2 [0x41, 0x42]) (plainImage 10 10) 0) 1 = True
   \<and> slot_lsb (putBits (streamBits 2 [0x41, 0x42]) (plainImage 10 10) 0) 32 = True
   \<and> slot_lsb (putBits (streamBits 2 [0x41, 0x42]) (plainImage 10 10) 0) 41 = True
   \<and> slot_lsb (putBits (streamBits 2 [0x41, 0x42]) (plainImage 10 10) 0) 47 = False"
proof -
  let ?img' = "putBits (streamBits 2 [0x41, 0x42]) (plainImage 10 10) 0"
  have wf: "wf_image (plainImage 10 10)" by (simp add: wf_plainImage)
  have c: "capacity_nat (plainImage 10 10) \<le> 2 ^ 32" by simp
  have enc: "encode (plainImage 10 10) [0x41, 0x42] = Some (EncodeSuccess, ?img')"
    using encode_success [OF wf, of "[0x41, 0x42]"] by simp
  note layout = C4_wire_layout [OF wf c enc]
  from layout have h: "\<And>i. i < 32 \<Longrightarrow> slot_lsb ?img' i = bit (2 :: uint32) i" by simp
  from layout have p: "\<And>j k. j < 2 \<Longrightarrow> k < 8 \<Longrightarrow> slot_lsb ?img' (32 + 8 * j + k) = bit ([0x41, 0x42 :: Uint8] ! j) k"
    by simp
  show ?thesis
    using wf c enc h [of 0] h [of 1] p [of 0 0] p [of 1 1] p [of 1 7]
    by (simp add: bit_numeral_simps bit_0)
qed

text \<open>
  C5. Frame of the encoder: after every successful encode of a payload of \<open>n\<close> bytes the
  width and the height are unchanged, the upper seven bits of every channel byte are
  unchanged, every slot of index at least \<open>32 + 8 * n\<close> is unchanged, and no alpha byte
  changes; so only the low bits of the first \<open>32 + 8 * n\<close> slots may differ.
\<close>

theorem C5_encoder_frame:
  assumes "wf_image img" and "encode img secretData = Some (EncodeSuccess, img')"
  shows "size_x img' = size_x img \<and> size_y img' = size_y img
       \<and> length (pixels img') = length (pixels img)
       \<and> (\<forall>i<capacity_nat img. drop_bit 1 (slot_byte img' i) = drop_bit 1 (slot_byte img i))
       \<and> (\<forall>i<capacity_nat img. 32 + 8 * length secretData \<le> i \<longrightarrow> slot_byte img' i = slot_byte img i)
       \<and> (\<forall>q<length (pixels img). col_a (pixels img' ! q) = col_a (pixels img ! q))"
  using encode_frame [OF assms] by simp

text \<open>The payload \<open>AB\<close> in a 10 by 10 image: slots 0, 48 and 299.\<close>

theorem C5_encoder_frame_witness:
  "wf_image (plainImage 10 10)
   \<and> encode (plainImage 10 10) [0x41, 0x42] =
        Some (EncodeSuccess, putBits (streamBits 2 [0x41, 0x42]) (plainImage 10 10) 0)
   \<and> size_x (putBits (streamBits 2 [0x41, 0x42]) (plainImage 10 10) 0) = 10
   \<and> size_y (putBits (streamBits 2 [0x41, 0x42]) (plainImage 10 10) 0) = 10
   \<and> drop_bit 1 (slot_byte (putBits (streamBits 2 [0x41, 0x42]) (plainImage 10 10) 0) 0) = 0x40
   \<and> slot_byte (putBits (streamBits 2 [0x41, 0x42]) (plainImage 10 10) 0) 48 = 0x80
   \<and> slot_byte (putBits (streamBits 2 [0x41, 0x42]) (plainImage 10 10) 0) 299 = 0x7F
   \<and> col_a (pixels (putBits (streamBits 2 [0x41, 0x42]) (plainImage 10 10) 0) ! 0) = 0xFF"
proof -
  let ?img' = "putBits (streamBits 2 [0x41, 0x42]) (plainImage 10 10) 0"
  have wf: "wf_image (plainImage 10 10)" by (simp add: wf_plainImage)
  have enc: "encode (plainImage 10 10) [0x41, 0x42] = Some (EncodeSuccess, ?img')"
    using encode_success [OF wf, of "[0x41, 0x42]"] by simp
  note frame = C5_encoder_frame [OF wf enc]
  from frame have h: "\<And>i. i < 300 \<Longrightarrow> drop_bit 1 (slot_byte ?img' i) = drop_bit 1 (slot_byte (plainImage 10 10) i)"
    by simp
  from frame have f: "\<And>i. i < 300 \<Longrightarrow> 48 \<le> i \<Longrightarrow> slot_byte ?img' i = slot_byte (plainImage 10 10) i"
    by simp
  from frame have a: "\<And>q. q < 100 \<Longrightarrow> col_a (pixels ?img' ! q) = col_a (pixels (plainImage 10 10) ! q)"
    by simp
  have s: "slot_byte (plainImage 10 10) 0 = 0x80" "slot_byte (plainImage 10 10) 48 = 0x80"
    "slot_byte (plainImage 10 10) 299 = 0x7F" "col_a (pixels (plainImage 10 10) ! 0) = 0xFF"
    by (simp_all add: slot_byte_def channelOf_def plainImage_def plainColor_def)
  have d: "drop_bit 1 (0x80 :: Uint8) = 0x40" by simp
  from frame have sz: "size_x ?img' = 10" "size_y ?img' = 10" by simp_all
  show ?thesis
    using wf enc sz h [of 0] f [of 48] f [of 299] a [of 0] by (simp add: s d)
qed

text \<open>
  C6. Invalid length: for every well-formed pixel buffer, and whatever the reads outside
  the image return, the decoder answers \<open>InvalidLength\<close> exactly when the 32-bit value \<open>n\<close>
  its header loop assembles satisfies \<open>32 + 8 * n > W * H * 3\<close>. A buffer with fewer than 32
  slots is always rejected. With at least 32 slots \<open>n\<close> is assembled from the low bits of
  slots 0 to 31, no read leaves the image, and the answer is that of \<open>decode\<close>. The check
  stands before the payload loop, so a rejected buffer has no payload byte read.
\<close>

theorem C6_invalid_length:
  assumes "wf_image img"
  shows "(decodeUnchecked stray img = InvalidLength)
           = (capacity_nat img < 32 + 8 * unat (decodedSize stray img))
       \<and> (capacity_nat img < 32 \<longrightarrow> decodeUnchecked stray img = InvalidLength)
       \<and> (32 \<le> capacity_nat img \<longrightarrow>
            (\<forall>i<32. bit (decodedSize stray img) i = slot_lsb img i)
            \<and> decode img = Some (decodeUnchecked stray img))"
  using assms
  by (simp add: decodeUnchecked_invalid decodedSize_in_range header_bit decode_total_in_range)

text \<open>
  A 3 by 3 image (27 slots) is rejected; so is a 4 by 3 image whose slot 1 has its low bit
  set, since then \<open>n \<ge> 2\<close> and \<open>32 + 8 * n\<close> exceeds the 36 slots.
\<close>

theorem C6_invalid_length_witness:
  "wf_image (plainImage 3 3) \<and> capacity_nat (plainImage 3 3) = 27
   \<and> decodeUnchecked (\<lambda>x y. plainColor) (plainImage 3 3) = InvalidLength
   \<and> wf_image (plainImage 4 3) \<and> capacity_nat (plainImage 4 3) = 36
   \<and> bit (decodedSize (\<lambda>x y. plainColor) (plainImage 4 3)) 1
   \<and> decode (plainImage 4 3) = Some InvalidLength"
proof -
  have wf3: "wf_image (plainImage 3 3)" and wf4: "wf_image (plainImage 4 3)"
    by (simp_all add: wf_plainImage)
  note a = C6_invalid_length [OF wf3, of "\<lambda>x y. plainColor"]
  note b = C6_invalid_length [OF wf4, of "\<lambda>x y. plainColor"]
  have s: "slot_lsb (plainImage 4 3) 1"
    by (simp add: slot_lsb_def slot_byte_def channelOf_def plainImage_def plainColor_def extractBit_def)
  from b have bt: "bit (decodedSize (\<lambda>x y. plainColor) (plainImage 4 3)) 1" using s by simp
  from bit1_ge2 [OF bt] b have "decodeUnchecked (\<lambda>x y. plainColor) (plainImage 4 3) = InvalidLength"
    by simp
  with b have "decode (plainImage 4 3) = Some InvalidLength" by simp
  with a bt wf3 wf4 show ?thesis by simp
qed

text \<open>
  C7. The claim asks that the decoder never reads a slot beyond \<open>W * H * 3 - 1\<close>, also when
  \<open>W * H * 3 < 32\<close>. On a 1 by 1 image the fourth pass of the header loop computes the
  position \<open>(0, 1)\<close>, which is outside the image.
\<close>

theorem C7_slot_bound_failing_input:
  "wf_image (plainImage 1 1) \<and> capacity_nat (plainImage 1 1) = 3
   \<and> slotPos (size_x (plainImage 1 1)) (cursorAfter 3) = (0, 1)
   \<and> getPixel (plainImage 1 1) 0 1 = None
   \<and> extractStep (plainImage 1 1) (cursorAfter 3) = None
   \<and> decode (plainImage 1 1) = None"
proof -
  have wf: "wf_image (plainImage 1 1)" by (simp add: wf_plainImage)
  show ?thesis
    by (simp add: wf decode_out_of_range_iff [OF wf] extractStep_nat [OF wf] cursorAfter_of_nat
          slotPos_def getPixel_def)
qed

text \<open>
  C8. Bit packing: for every channel byte \<open>c\<close> and bit \<open>v\<close>, \<open>embedBit c v\<close> is
  \<open>(c AND 0xFE) OR v\<close>, so the upper seven bits of \<open>c\<close> stay;
  \<open>embedBit 0b11111110 1 = 0b11111111\<close> and \<open>embedBit 0b11111111 0 = 0b11111110\<close>;
  \<open>extractBit c\<close> is \<open>c AND 1\<close>; both are total functions, and
  \<open>extractBit (embedBit c v) = v\<close>.
\<close>

theorem C8_bit_packing:
  "embedBit c v = (c AND 0xFE) OR (if v then 1 else 0)
   \<and> drop_bit 1 (embedBit c v) = drop_bit 1 c
   \<and> embedBit 0xFE True = 0xFF
   \<and> embedBit 0xFF False = 0xFE
   \<and> of_bool (extractBit c) = c AND 1
   \<and> extractBit (embedBit c v) = v"
proof -
  have fe: "(0xFE :: Uint8) = NOT 1" by simp
  have 1: "embedBit c v = (c AND 0xFE) OR (if v then 1 else 0)"
    by (rule bit_word_eqI)
       (auto simp only: fe bit_embedBit bit_simps bit_0 split: if_splits, auto simp: bit_simps bit_0)
  have 2: "drop_bit 1 (embedBit c v) = drop_bit 1 c"
    by (rule bit_word_eqI) (simp add: bit_simps bit_embedBit)
  have 3: "embedBit 0xFE True = 0xFF" "embedBit 0xFF False = 0xFE"
    by (simp_all add: embedBit_def)
  have 4: "of_bool (extractBit c) = c AND 1"
    by (simp add: extractBit_def and_one_eq mod_2_eq_odd)
  have 5: "extractBit (embedBit c v) = v"
    by (simp add: extractBit_bit0 bit_embedBit)
  from 1 2 3 4 5 show ?thesis by simp
qed

text \<open>
  C9. Empty payload: encoding the empty payload into any well-formed buffer with
  \<open>W * H * 3 \<ge> 32\<close> succeeds; it writes the all-zero header, changing nothing but the low
  bits of the first 32 slots; decoding the result gives \<open>EmptyPayload\<close>, with no bytes, and
  the status string of that outcome is a warning, not an error.
\<close>

theorem C9_empty_payload:
  assumes "wf_image img" and "32 \<le> capacity_nat img"
  shows "\<exists>img'. encode img [] = Some (EncodeSuccess, img')
           \<and> (\<forall>i<32. \<not> slot_lsb img' i)
           \<and> (\<forall>i<capacity_nat img. drop_bit 1 (slot_byte img' i) = drop_bit 1 (slot_byte img i))
           \<and> (\<forall>i<capacity_nat img. 32 \<le> i \<longrightarrow> slot_byte img' i = slot_byte img i)
           \<and> decode img' = Some EmptyPayload
           \<and> decoded_bytes EmptyPayload = []
           \<and> \<not> is_error_message (decode_message outputPath EmptyPayload)"
proof -
  let ?img' = "putBits (streamBits 0 []) img 0"
  have enc: "encode img [] = Some (EncodeSuccess, ?img')"
    using encode_success [OF assms(1), of "[]"] assms(2) by simp
  have cap: "32 + 8 * length ([] :: Uint8 list) \<le> capacity_nat img" using assms(2) by simp
  have hdr: "\<forall>i<32. \<not> slot_lsb ?img' i"
    using wire_layout(1) [OF assms(1) cap] by simp
  have dec: "decode ?img' = Some EmptyPayload"
    using assms by (simp add: decode_eq header_zero [OF hdr])
  have msg: "\<not> is_error_message (decode_message outputPath EmptyPayload)"
    by (simp add: is_error_message_def decode_message_def)
  from encode_frame(5,6) [OF assms(1) enc] hdr dec msg enc show ?thesis
    by (auto simp: decoded_bytes_def)
qed

text \<open>A 4 by 3 image has 36 slots.\<close>

theorem C9_empty_payload_witness:
  "wf_image (plainImage 4 3) \<and> 32 \<le> capacity_nat (plainImage 4 3)
   \<and> map_option fst (encode (plainImage 4 3) []) = Some EncodeSuccess
   \<and> roundTrip (plainImage 4 3) [] = Some EmptyPayload"
proof -
  have wf: "wf_image (plainImage 4 3)" by (simp add: wf_plainImage)
  have cap: "32 \<le> capacity_nat (plainImage 4 3)" by simp
  from C9_empty_payload [OF wf cap, of "''decoded_file''"] wf cap show ?thesis
    by (auto simp: roundTrip_def)
qed

text \<open>
  C10. Length truncation: for a payload of \<open>L\<close> bytes the capacity check compares the
  capacity with \<open>32 + 8 * (L mod 2^32)\<close>; when it passes, the header loop leaves the 32 bits
  of \<open>L mod 2^32\<close> in slots 0 to 31 and the payload loop starts from there; that loop
  embeds all \<open>L\<close> bytes: the call leaves the buffer exactly when the check has passed and
  the \<open>32 + 8 * L\<close> cursor positions do not all lie inside it, and on success the image is
  the carrier with the header bits of \<open>L mod 2^32\<close> and all \<open>8 * L\<close> payload bits put into
  it, each payload bit in its slot when the cursor has not wrapped; for
  \<open>L \<le> 2^32 - 1\<close> the truncated length is \<open>L\<close>.
\<close>

theorem C10_length_truncation:
  assumes "wf_image img"
  shows "(encode img secretData = Some (InsufficientCapacity, img))
           = (capacity_nat img < 32 + 8 * (length secretData mod 2 ^ 32))
       \<and> (32 + 8 * (length secretData mod 2 ^ 32) \<le> capacity_nat img \<longrightarrow>
            embedLoop (\<lambda>i. drop_bit i (of_nat (length secretData) :: uint32) AND 1 \<noteq> 0) [0..<32] (img, 0)
              = Some (putBits (sizeBits (of_nat (length secretData))) img 0, 32)
            \<and> (\<forall>i<32. slot_lsb (putBits (sizeBits (of_nat (length secretData))) img 0) i
                         = bit (length secretData mod 2 ^ 32) i)
            \<and> encode img secretData =
                map_option (\<lambda>st. (EncodeSuccess, fst st))
                  (embedData secretData (putBits (sizeBits (of_nat (length secretData))) img 0, 32)))
       \<and> (encode img secretData = None)
           = (32 + 8 * (length secretData mod 2 ^ 32) \<le> capacity_nat img
              \<and> capacity_nat img < min (32 + 8 * length secretData) (2 ^ 32))
       \<and> (\<forall>img'. encode img secretData = Some (EncodeSuccess, img') \<longrightarrow>
             img' = putBits (streamBits (of_nat (length secretData mod 2 ^ 32)) secretData) img 0
             \<and> (32 + 8 * length secretData \<le> 2 ^ 32 \<longrightarrow>
                  (\<forall>j<length secretData. \<forall>k<8. slot_lsb img' (32 + 8 * j + k) = bit (secretData ! j) k)))
       \<and> (length secretData \<le> 2 ^ 32 - 1 \<longrightarrow> length secretData mod 2 ^ 32 = length secretData)"
proof -
  let ?L = "length secretData" and ?n = "of_nat (length secretData) :: uint32"
  note wf = assms
  have 1: "(encode img secretData = Some (InsufficientCapacity, img)) = (capacity_nat img < 32 + 8 * (?L mod 2 ^ 32))"
    by (simp add: encode_eq [OF wf])
  have 2: "embedLoop (\<lambda>i. drop_bit i ?n AND 1 \<noteq> 0) [0..<32] (img, 0) = Some (putBits (sizeBits ?n) img 0, 32)
        \<and> (\<forall>i<32. slot_lsb (putBits (sizeBits ?n) img 0) i = bit (?L mod 2 ^ 32) i)
        \<and> encode img secretData =
             map_option (\<lambda>st. (EncodeSuccess, fst st)) (embedData secretData (putBits (sizeBits ?n) img 0, 32))"
    if c: "32 + 8 * (?L mod 2 ^ 32) \<le> capacity_nat img"
  proof -
    from c have c32: "32 \<le> capacity_nat img" by simp
    note h = header_pass [OF wf c32, of ?n]
    from c have "\<not> capacityBits img < 32 + ucast ?n * 8" by (simp add: encode_check [OF wf])
    from encode_after_header [OF h(1) this] h show ?thesis by (simp add: bit_of_nat_mod)
  qed
  have 3: "(encode img secretData = None)
             = (32 + 8 * (?L mod 2 ^ 32) \<le> capacity_nat img \<and> capacity_nat img < min (32 + 8 * ?L) (2 ^ 32))"
    by (auto simp: encode_eq [OF wf] inRange_0_iff)
  have 4: "img' = putBits (streamBits (of_nat (?L mod 2 ^ 32)) secretData) img 0
        \<and> (32 + 8 * ?L \<le> 2 ^ 32 \<longrightarrow>
              (\<forall>j<?L. \<forall>k<8. slot_lsb img' (32 + 8 * j + k) = bit (secretData ! j) k))"
    if e: "encode img secretData = Some (EncodeSuccess, img')" for img'
  proof -
    note d = encode_Success_D [OF wf e]
    have a: "img' = putBits (streamBits (of_nat (?L mod 2 ^ 32)) secretData) img 0"
      by (simp add: d(1) of_nat_mod_size [simplified])
    have b: "\<forall>j<?L. \<forall>k<8. slot_lsb img' (32 + 8 * j + k) = bit (secretData ! j) k"
      if n: "32 + 8 * ?L \<le> 2 ^ 32"
    proof -
      from n have "?L mod 2 ^ 32 = ?L" by simp
      with d(2) have cap: "32 + 8 * ?L \<le> capacity_nat img" by simp
      from wire_layout(2) [OF wf cap n] show ?thesis by (simp only: d(1))
    qed
    from a b show ?thesis by blast
  qed
  have 5: "?L \<le> 2 ^ 32 - 1 \<longrightarrow> ?L mod 2 ^ 32 = ?L" by simp
  from 1 2 3 4 5 show ?thesis by blast
qed

text \<open>
  A payload of \<open>2^32\<close> bytes has the truncated length 0: on a 4 by 3 image the check passes,
  the header loop clears the low bit of slot 1, and the payload loop runs past the 36
  slots. The payload \<open>AB\<close> in a 10 by 10 image shows the payload bits in their slots.
\<close>

theorem C10_length_truncation_witness:
  "wf_image (plainImage 4 3)
   \<and> length hugeSecret mod 2 ^ 32 = 0
   \<and> capacity_nat (plainImage 4 3) < 32 + 8 * length hugeSecret
   \<and> encode (plainImage 4 3) hugeSecret \<noteq> Some (InsufficientCapacity, plainImage 4 3)
   \<and> slot_lsb (plainImage 4 3) 1
   \<and> embedLoop (\<lambda>i. drop_bit i (of_nat (length hugeSecret) :: uint32) AND 1 \<noteq> 0) [0..<32] (plainImage 4 3, 0)
        = Some (putBits (sizeBits (of_nat (length hugeSecret))) (plainImage 4 3) 0, 32)
   \<and> \<not> slot_lsb (putBits (sizeBits (of_nat (length hugeSecret))) (plainImage 4 3) 0) 1
   \<and> encode (plainImage 4 3) hugeSecret = None
   \<and> wf_image (plainImage 10 10)
   \<and> encode (plainImage 10 10) [0x41, 0x42] =
        Some (EncodeSuccess, putBits (streamBits 2 [0x41, 0x42]) (plainImage 10 10) 0)
   \<and> slot_lsb (putBits (streamBits 2 [0x41, 0x42]) (plainImage 10 10) 0) 32
   \<and> \<not> slot_lsb (putBits (streamBits 2 [0x41, 0x42]) (plainImage 10 10) 0) 33
   \<and> slot_lsb (putBits (streamBits 2 [0x41, 0x42]) (plainImage 10 10) 0) 41"
proof -
  have wf4: "wf_image (plainImage 4 3)" and wf10: "wf_image (plainImage 10 10)"
    by (simp_all add: wf_plainImage)
  have l: "length hugeSecret = 4294967296" by (simp add: hugeSecret_def)
  have s: "slot_lsb (plainImage 4 3) 1"
    by (simp add: slot_lsb_def slot_byte_def channelOf_def plainImage_def plainColor_def extractBit_def)
  note h = C10_length_truncation [OF wf4, of hugeSecret]
  note ha = h [THEN conjunct1]
    and hb = h [THEN conjunct2, THEN conjunct1]
    and hc = h [THEN conjunct2, THEN conjunct2, THEN conjunct1]
  have h1: "encode (plainImage 4 3) hugeSecret \<noteq> Some (InsufficientCapacity, plainImage 4 3)"
    using ha by (simp add: l)
  have c: "32 + 8 * (length hugeSecret mod 2 ^ 32) \<le> capacity_nat (plainImage 4 3)"
    by (simp add: l)
  note hb' = hb [rule_format, OF c]
  note h2 = hb' [THEN conjunct1]
  have h3: "\<not> slot_lsb (putBits (sizeBits (of_nat (length hugeSecret))) (plainImage 4 3) 0) 1"
    using hb' [THEN conjunct2, THEN conjunct1, rule_format, of 1] by (simp add: l)
  have h4: "encode (plainImage 4 3) hugeSecret = None"
    using hc by (simp add: l)
  note t = C10_length_truncation [OF wf10, of "[0x41, 0x42]"]
  note ta = t [THEN conjunct1]
    and tc = t [THEN conjunct2, THEN conjunct2, THEN conjunct1]
    and td = t [THEN conjunct2, THEN conjunct2, THEN conjunct2, THEN conjunct1]
  have t1: "encode (plainImage 10 10) [0x41, 0x42] \<noteq> Some (InsufficientCapacity, plainImage 10 10)"
    using ta by simp
  have t3: "encode (plainImage 10 10) [0x41, 0x42] \<noteq> None"
    using tc by simp
  from td have t4: "\<And>img'. encode (plainImage 10 10) [0x41, 0x42] = Some (EncodeSuccess, img') \<Longrightarrow>
      img' = putBits (streamBits 2 [0x41, 0x42]) (plainImage 10 10) 0
      \<and> (\<forall>j<2. \<forall>k<8. slot_lsb img' (32 + 8 * j + k) = bit ([0x41, 0x42 :: Uint8] ! j) k)"
    by simp
  from t3 obtain st img' where e: "encode (plainImage 10 10) [0x41, 0x42] = Some (st, img')"
    by (cases "encode (plainImage 10 10) [0x41, 0x42]") auto
  have "st = EncodeSuccess"
  proof (cases st)
    case InsufficientCapacity
    with e have "img' = plainImage 10 10" by (auto simp: encode_def Let_def split: if_splits option.splits)
    with e InsufficientCapacity t1 show ?thesis by simp
  next
    case EncodeSuccess
    then show ?thesis .
  qed
  with e have e': "encode (plainImage 10 10) [0x41, 0x42] = Some (EncodeSuccess, img')" by simp
  from t4 [OF e'] have i: "img' = putBits (streamBits 2 [0x41, 0x42]) (plainImage 10 10) 0"
    and p: "\<And>j k. j < 2 \<Longrightarrow> k < 8 \<Longrightarrow> slot_lsb img' (32 + 8 * j + k) = bit ([0x41, 0x42 :: Uint8] ! j) k"
    by blast+
  show ?thesis
    using wf4 wf10 s h1 h2 h3 h4 e' p [of 0 0] p [of 0 1] p [of 1 1]
    by (simp add: l i bit_numeral_simps bit_0)
qed

end
